theory Spec2Isabelle
  imports Main "HOL-Library.Sublist"
begin

section \<open>Text and the string primitives of the validator\<close>

text \<open>
  The validator (\<^verbatim>\<open>validate_js.py\<close>) works on Python \<^verbatim>\<open>str\<close> values. A text is
  modelled as a \<^typ>\<open>string\<close>, each \<^typ>\<open>char\<close> read as one code point in the range
  U+0000 .. U+00FF. The two character classes the source relies on are those of Python's
  \<^verbatim>\<open>re\<close> module for \<^verbatim>\<open>str\<close> patterns on that range: \<^verbatim>\<open>\w\<close> is an alphanumeric
  code point or the underscore, \<^verbatim>\<open>\s\<close> is a code point for which \<^verbatim>\<open>str.isspace\<close>
  holds (the set \<^verbatim>\<open>str.strip()\<close> removes as well).
\<close>

definition is_word :: "char \<Rightarrow> bool" where
  "is_word c =
     (let n = (of_char c :: nat) in
        (48 \<le> n \<and> n \<le> 57) \<or> (65 \<le> n \<and> n \<le> 90) \<or> n = 95 \<or> (97 \<le> n \<and> n \<le> 122) \<or>
        n = 170 \<or> (178 \<le> n \<and> n \<le> 179) \<or> n = 181 \<or> (185 \<le> n \<and> n \<le> 186) \<or>
        (188 \<le> n \<and> n \<le> 190) \<or> (192 \<le> n \<and> n \<le> 214) \<or> (216 \<le> n \<and> n \<le> 246) \<or>
        (248 \<le> n \<and> n \<le> 255))"

definition is_space :: "char \<Rightarrow> bool" where
  "is_space c =
     (let n = (of_char c :: nat) in
        (9 \<le> n \<and> n \<le> 13) \<or> (28 \<le> n \<and> n \<le> 32) \<or> n = 133 \<or> n = 160)"

definition newline :: char where
  "newline = CHR 0x0A"

definition quote :: char where
  "quote = CHR 0x27"

text \<open>
  The exceptions that the operations of the validator can raise: a match object asked
  for a group it does not have, a dictionary asked for a key it does not have, and a file
  that cannot be opened or cannot be decoded.
\<close>

datatype py_error = IndexError | KeyError | OSError | UnicodeDecodeError

text \<open>\<^verbatim>\<open>s.count(c)\<close> for a one-character needle \<open>c\<close>.\<close>

definition str_count :: "string \<Rightarrow> char \<Rightarrow> nat" where
  "str_count s c = count_list s c"

text \<open>
  \<^verbatim>\<open>s.split('\n')\<close>: the pieces between newlines; the empty text gives one empty line,
  and a text ending in a newline gives a last empty line.
\<close>

fun split_lines :: "string \<Rightarrow> string list" where
  "split_lines [] = [[]]"
| "split_lines (c # cs) =
     (if c = newline then [] # split_lines cs
      else (case split_lines cs of
              [] \<Rightarrow> [[c]]
            | l # ls \<Rightarrow> (c # l) # ls))"

text \<open>\<^verbatim>\<open>s.strip()\<close>: leading and trailing whitespace removed.\<close>

definition strip :: "string \<Rightarrow> string" where
  "strip s = rev (dropWhile is_space (rev (dropWhile is_space s)))"

text \<open>
  \<^verbatim>\<open>str(n)\<close> for a non-negative integer, as the f-strings of the source render
  \<^verbatim>\<open>len(occurrences)\<close> and \<^verbatim>\<open>abs(brace_count)\<close>: the decimal digits, most significant
  first.
\<close>

definition digit_char :: "nat \<Rightarrow> char" where
  "digit_char d = char_of (48 + d)"

function str_nat :: "nat \<Rightarrow> string" where
  "str_nat n = (if n < 10 then [digit_char n] else str_nat (n div 10) @ [digit_char (n mod 10)])"
  by pat_completeness auto
termination
  by (relation "measure (\<lambda>n. n)") auto

declare str_nat.simps [simp del]


section \<open>The declaration patterns\<close>

text \<open>
  The three patterns of the source are \<^verbatim>\<open>\bKW\s+(\w+)\<close> for \<^verbatim>\<open>KW\<close> one of
  \<^verbatim>\<open>let\<close>, \<^verbatim>\<open>const\<close>, \<^verbatim>\<open>var\<close>. A pattern is represented by its keyword, and
  \<open>match_here kw prev rest\<close> is one attempt of the regular-expression engine to match
  the pattern at the position whose preceding character is \<open>prev\<close> (\<open>None\<close> at the start
  of the line) and whose remaining text is \<open>rest\<close>. The pieces are matched in the order
  the engine does: the word boundary, the keyword, the greedy whitespace run and the greedy
  run of word characters of group 1. Both runs are maximal: a shorter whitespace run would
  be followed by whitespace, which is no word character, so backtracking into it never
  yields another match. The result is group 1 and the text after the match.
\<close>

definition word_boundary :: "char option \<Rightarrow> string \<Rightarrow> bool" where
  "word_boundary prev rest =
     ((case prev of None \<Rightarrow> False | Some c \<Rightarrow> is_word c) \<noteq>
      (case rest of [] \<Rightarrow> False | c # _ \<Rightarrow> is_word c))"

definition match_here :: "string \<Rightarrow> char option \<Rightarrow> string \<Rightarrow> (string \<times> string) option" where
  "match_here kw prev rest =
     (if word_boundary prev rest \<and> take (length kw) rest = kw then
        (let after_kw = drop (length kw) rest;
             spaces = takeWhile is_space after_kw;
             after_spaces = dropWhile is_space after_kw;
             name = takeWhile is_word after_spaces
         in if spaces \<noteq> [] \<and> name \<noteq> [] then Some (name, dropWhile is_word after_spaces)
            else None)
      else None)"

lemma match_here_shorter:
  assumes "match_here kw prev rest = Some (name, rest')"
  shows "length rest' < length rest"
proof -
  let ?a = "dropWhile is_space (drop (length kw) rest)"
  from assms have n: "name = takeWhile is_word ?a" and r: "rest' = dropWhile is_word ?a"
    and ne: "name \<noteq> []"
    by (auto simp: match_here_def Let_def split: if_splits)
  have "length name + length rest' = length ?a"
    unfolding n r by (metis length_append takeWhile_dropWhile_id)
  moreover have "length ?a \<le> length rest"
  proof -
    have "length ?a \<le> length (drop (length kw) rest)" by (rule length_dropWhile_le)
    also have "\<dots> \<le> length rest" by simp
    finally show ?thesis .
  qed
  moreover have "0 < length name" using ne by simp
  ultimately show ?thesis by linarith
qed

text \<open>
  \<^verbatim>\<open>re.finditer(pattern, line)\<close>, reduced to the group-1 texts of its matches: the scan
  tries every position from left to right and resumes after the end of each match, so
  matches never overlap.
\<close>

function finditer :: "string \<Rightarrow> char option \<Rightarrow> string \<Rightarrow> string list" where
  "finditer kw prev [] = []"
| "finditer kw prev (c # cs) =
     (case match_here kw prev (c # cs) of
        Some (name, rest') \<Rightarrow> name # finditer kw (Some (last name)) rest'
      | None \<Rightarrow> finditer kw (Some c) cs)"
  by pat_completeness auto
termination
proof (relation "measure (\<lambda>(kw, prev, rest). length rest)", goal_cases)
  case 1
  show ?case by simp
next
  case (2 kw prev c cs)
  show ?case by simp
next
  case (3 kw prev c cs x2 name rest')
  then show ?case using match_here_shorter [of kw prev "c # cs" name rest'] by simp
qed

text \<open>The source's table of patterns, each with its declaration type.\<close>

definition patterns :: "(string \<times> string) list" where
  "patterns = [(''let'', ''let''), (''const'', ''const''), (''var'', ''var'')]"


section \<open>The duplicate checker\<close>

text \<open>
  An occurrence is the triple \<^verbatim>\<open>(line_num, decl_type, line.strip())\<close>. The
  \<^verbatim>\<open>defaultdict(list)\<close> of the source keeps its keys in the order of their first
  insertion, which is the order the final loop reads them in; it is an association list
  here, and \<open>dict_append d k v\<close> is \<^verbatim>\<open>d[k].append(v)\<close>.
\<close>

type_synonym occurrence = "nat \<times> string \<times> string"

type_synonym decl_index = "(string \<times> occurrence list) list"

fun dict_append :: "decl_index \<Rightarrow> string \<Rightarrow> occurrence \<Rightarrow> decl_index" where
  "dict_append [] k v = [(k, [v])]"
| "dict_append ((k', vs) # d) k v =
     (if k' = k then (k', vs @ [v]) # d else (k', vs) # dict_append d k v)"

text \<open>
  The two inner loops over one line: for each pattern in turn, for each match in turn,
  the captured name with the occurrence to append.
\<close>

definition line_matches :: "nat \<Rightarrow> string \<Rightarrow> (string \<times> occurrence) list" where
  "line_matches line_num line =
     concat (map (\<lambda>(kw, decl_type).
                    map (\<lambda>var_name. (var_name, (line_num, decl_type, strip line)))
                      (finditer kw None line))
               patterns)"

fun record_all :: "decl_index \<Rightarrow> (string \<times> occurrence) list \<Rightarrow> decl_index" where
  "record_all d [] = d"
| "record_all d ((var_name, occ) # ms) = record_all (dict_append d var_name occ) ms"

text \<open>
  The loop over the lines, with its two variables \<^verbatim>\<open>brace_depth\<close> and
  \<^verbatim>\<open>global_declarations\<close>. The depth is a Python integer (unbounded, signed).
\<close>

fun scan_lines :: "string list \<Rightarrow> nat \<Rightarrow> int \<Rightarrow> decl_index \<Rightarrow> decl_index" where
  "scan_lines [] line_num brace_depth decls = decls"
| "scan_lines (line # rest) line_num brace_depth decls =
     (let brace_depth' =
            brace_depth + (int (str_count line CHR ''{'') - int (str_count line CHR ''}''));
          line_depth =
            brace_depth' - int (str_count line CHR ''{'') + int (str_count line CHR ''}'');
          decls' =
            (if line_depth \<le> 0 then record_all decls (line_matches line_num line) else decls)
      in scan_lines rest (line_num + 1) brace_depth' decls')"

definition global_declarations :: "string \<Rightarrow> decl_index" where
  "global_declarations js_code = scan_lines (split_lines js_code) 1 0 []"

text \<open>
  An error is the dictionary the source builds: the keys \<^verbatim>\<open>type\<close> and \<^verbatim>\<open>message\<close>
  are always present, \<^verbatim>\<open>variable\<close> and \<^verbatim>\<open>occurrences\<close> only in a duplicate
  declaration.
\<close>

record error =
  etype :: string
  variable :: "string option"
  occurrences :: "occurrence list option"
  message :: string

definition duplicate_error :: "string \<Rightarrow> occurrence list \<Rightarrow> error" where
  "duplicate_error var_name occs =
     \<lparr>etype = ''duplicate_declaration'',
      variable = Some var_name,
      occurrences = Some occs,
      message = ''Variable '' @ [quote] @ var_name @ [quote] @ '' is declared '' @
                str_nat (length occs) @ '' times in global scope''\<rparr>"

fun duplicates :: "decl_index \<Rightarrow> error list" where
  "duplicates [] = []"
| "duplicates ((var_name, occs) # d) =
     (if length occs > 1 then duplicate_error var_name occs # duplicates d
      else duplicates d)"

definition check_duplicate_declarations :: "string \<Rightarrow> error list" where
  "check_duplicate_declarations js_code = duplicates (global_declarations js_code)"


section \<open>The balance checker\<close>

text \<open>
  The three blocks of \<^verbatim>\<open>check_syntax_errors\<close>, in the order of the source. Each count
  is over the whole text; the differences are Python integers.
\<close>

definition check_syntax_errors :: "string \<Rightarrow> error list" where
  "check_syntax_errors js_code =
     (let errors0 = [];
          brace_count = int (str_count js_code CHR ''{'') - int (str_count js_code CHR ''}'');
          errors1 =
            (if brace_count \<noteq> 0 then
               errors0 @
               [\<lparr>etype = ''unmatched_braces'', variable = None, occurrences = None,
                 message = ''Unmatched braces: '' @ str_nat (nat \<bar>brace_count\<bar>) @ '' '' @
                           (if brace_count > 0 then ''opening'' else ''closing'') @
                           '' braces''\<rparr>]
             else errors0);
          paren_count = int (str_count js_code CHR ''('') - int (str_count js_code CHR '')'');
          errors2 =
            (if paren_count \<noteq> 0 then
               errors1 @
               [\<lparr>etype = ''unmatched_parentheses'', variable = None, occurrences = None,
                 message = ''Unmatched parentheses: '' @ str_nat (nat \<bar>paren_count\<bar>) @ '' '' @
                           (if paren_count > 0 then ''opening'' else ''closing'') @
                           '' parentheses''\<rparr>]
             else errors1);
          bracket_count = int (str_count js_code CHR ''['') - int (str_count js_code CHR '']'');
          errors3 =
            (if bracket_count \<noteq> 0 then
               errors2 @
               [\<lparr>etype = ''unmatched_brackets'', variable = None, occurrences = None,
                 message = ''Unmatched brackets: '' @ str_nat (nat \<bar>bracket_count\<bar>) @ '' '' @
                           (if bracket_count > 0 then ''opening'' else ''closing'') @
                           '' brackets''\<rparr>]
             else errors2)
      in errors3)"


section \<open>Script blocks of a document\<close>

text \<open>
  \<^verbatim>\<open>re.findall(r'<script[^>]*>(.*?)</script>', html_content, re.DOTALL)\<close>. One attempt
  at a position matches the literal \<^verbatim>\<open><script\<close>, runs to the next \<^verbatim>\<open>>\<close> (the class
  excludes that character, so the greedy run ends exactly there) and takes, lazily, the
  text up to the first \<^verbatim>\<open></script>\<close> after it. \<open>find_sub pat s\<close> splits \<open>s\<close> at
  the first occurrence of \<open>pat\<close>.
\<close>

fun find_sub :: "string \<Rightarrow> string \<Rightarrow> (string \<times> string) option" where
  "find_sub pat [] = (if pat = [] then Some ([], []) else None)"
| "find_sub pat (c # cs) =
     (if take (length pat) (c # cs) = pat then Some ([], drop (length pat) (c # cs))
      else (case find_sub pat cs of
              None \<Rightarrow> None
            | Some (before, after) \<Rightarrow> Some (c # before, after)))"

definition match_script :: "string \<Rightarrow> (string \<times> string) option" where
  "match_script rest =
     (if take 7 rest = ''<script'' then
        (case dropWhile (\<lambda>c. c \<noteq> CHR ''>'') (drop 7 rest) of
           [] \<Rightarrow> None
         | _ # body_on \<Rightarrow> find_sub ''</script>'' body_on)
      else None)"

lemma find_sub_shorter: "find_sub pat s = Some (b, a) \<Longrightarrow> length a \<le> length s"
  by (induction s arbitrary: b) (auto split: if_splits option.splits)

lemma match_script_shorter:
  assumes "match_script rest = Some (body, after)"
  shows "length after < length rest"
proof -
  from assms obtain x body_on where
    d: "dropWhile (\<lambda>c. c \<noteq> CHR ''>'') (drop 7 rest) = x # body_on"
    and f: "find_sub ''</script>'' body_on = Some (body, after)"
    by (auto simp: match_script_def split: if_splits list.splits)
  have "length after \<le> length body_on" using f by (rule find_sub_shorter)
  moreover have "length (x # body_on) \<le> length (drop 7 rest)"
    unfolding d [symmetric] by (rule length_dropWhile_le)
  ultimately show ?thesis by simp
qed

function extract_javascript_from_html :: "string \<Rightarrow> string list" where
  "extract_javascript_from_html [] = []"
| "extract_javascript_from_html (c # cs) =
     (case match_script (c # cs) of
        Some (body, after) \<Rightarrow> body # extract_javascript_from_html after
      | None \<Rightarrow> extract_javascript_from_html cs)"
  by pat_completeness auto
termination
proof (relation "measure length", goal_cases)
  case 1
  show ?case by simp
next
  case (2 c cs)
  show ?case by simp
next
  case (3 c cs x2 body after)
  then show ?case using match_script_shorter [of "c # cs" body after] by simp
qed


section \<open>Validating a document and the whole run\<close>

text \<open>
  The loop of \<^verbatim>\<open>validate_html_file\<close> over the script blocks, numbered from 1: it
  extends \<^verbatim>\<open>all_errors\<close> by the block's duplicate errors and then by its syntax errors,
  each paired with the block number.
\<close>

fun collect_errors :: "string list \<Rightarrow> nat \<Rightarrow> (nat \<times> error) list \<Rightarrow> (nat \<times> error) list" where
  "collect_errors [] i all_errors = all_errors"
| "collect_errors (script # scripts) i all_errors =
     (let dup_errors = check_duplicate_declarations script;
          all_errors1 =
            (if dup_errors \<noteq> [] then all_errors @ map (\<lambda>err. (i, err)) dup_errors
             else all_errors);
          syntax_errors = check_syntax_errors script;
          all_errors2 =
            (if syntax_errors \<noteq> [] then all_errors1 @ map (\<lambda>err. (i, err)) syntax_errors
             else all_errors1)
      in collect_errors scripts (i + 1) all_errors2)"

text \<open>
  \<^verbatim>\<open>validate_html_file\<close> from the extraction on, applied to the text that reading
  the file returned. Its effect is what it prints; of that, the model keeps the errors it
  reports (none on the two paths that print no error), beside the returned flag.
\<close>

definition validate_html_file :: "string \<Rightarrow> (nat \<times> error) list \<times> bool" where
  "validate_html_file html_content =
     (let scripts = extract_javascript_from_html html_content in
        if scripts = [] then ([], True)
        else (let all_errors = collect_errors scripts 1 [] in
                if all_errors \<noteq> [] then (all_errors, False) else ([], True)))"

text \<open>
  The first two statements of \<^verbatim>\<open>validate_html_file\<close> open the file and read it as
  UTF-8. A file of the templates directory is given by what that yields: its text, or the
  exception raised when it cannot be opened or decoded. Nothing in the source catches the
  exception, so it leaves \<^verbatim>\<open>validate_html_file\<close> and then \<^verbatim>\<open>main\<close>.
\<close>

datatype html_file = Readable string | Unreadable py_error

definition read_file :: "html_file \<Rightarrow> py_error + string" where
  "read_file f = (case f of Readable html_content \<Rightarrow> Inr html_content | Unreadable e \<Rightarrow> Inl e)"

definition validate_html_path :: "html_file \<Rightarrow> py_error + (nat \<times> error) list \<times> bool" where
  "validate_html_path file_path =
     (case read_file file_path of
        Inl e \<Rightarrow> Inl e
      | Inr html_content \<Rightarrow> Inr (validate_html_file html_content))"

text \<open>
  \<^verbatim>\<open>main\<close>: the argument is \<open>None\<close> when the templates directory does not exist and
  otherwise its \<^verbatim>\<open>*.html\<close> files; the result is the exit status. An exception that
  reaches the top level ends the process with exit status 1. Writing the report to the
  standard output is taken to succeed.
\<close>

fun validate_all :: "html_file list \<Rightarrow> bool \<Rightarrow> py_error + bool" where
  "validate_all [] all_valid = Inr all_valid"
| "validate_all (html_file # html_files) all_valid =
     (case validate_html_path html_file of
        Inl e \<Rightarrow> Inl e
      | Inr (reported, valid) \<Rightarrow>
          validate_all html_files (if \<not> valid then False else all_valid))"

definition main :: "html_file list option \<Rightarrow> nat" where
  "main templates =
     (case templates of
        None \<Rightarrow> 1
      | Some html_files \<Rightarrow>
          if html_files = [] then 0
          else (case validate_all html_files True of
                  Inl e \<Rightarrow> 1
                | Inr all_valid \<Rightarrow> if all_valid then 0 else 1))"


section \<open>The checkers statement by statement\<close>

text \<open>
  A second, finer model of the two checkers makes explicit what the functions above leave
  to the logic: the operations that can raise, the scan that could fail to end, and the
  variables a checker works on. A run yields \<open>None\<close> when it does not end,
  \<open>Some (Inl e)\<close> when it raises \<open>e\<close>, and \<open>Some (Inr (errors, frame))\<close> when it returns
  \<open>errors\<close>, leaving the values \<open>frame\<close> in its variables.

  A match object is the list of its groups, group 0 (the whole match) first;
  \<^verbatim>\<open>match.group(n)\<close> raises \<^verbatim>\<open>IndexError\<close> when there is no group \<open>n\<close>.
\<close>

type_synonym match = "string list"

definition match_group :: "match \<Rightarrow> nat \<Rightarrow> py_error + string" where
  "match_group m n = (if n < length m then Inr (m ! n) else Inl IndexError)"

text \<open>
  The scan of \<^verbatim>\<open>re.finditer\<close> as a loop that may or may not end: after a match it
  resumes at the end of the match, otherwise one character further.
\<close>

partial_function (option) finditer_run :: "string \<Rightarrow> char option \<Rightarrow> string \<Rightarrow> match list option" where
  "finditer_run kw prev rest =
     (case rest of
        [] \<Rightarrow> Some []
      | c # cs \<Rightarrow>
          (case match_here kw prev rest of
             Some (name, rest') \<Rightarrow>
               Option.bind (finditer_run kw (Some (last name)) rest')
                 (\<lambda>ms. Some ([take (length rest - length rest') rest, name] # ms))
           | None \<Rightarrow> finditer_run kw (Some c) cs))"

text \<open>
  A \<^verbatim>\<open>defaultdict\<close>: its factory and its entries in insertion order.
  \<open>getitem dd k\<close> is the dictionary after the access \<^verbatim>\<open>dd[k]\<close>: a missing key is
  inserted with the value of the factory, and raises \<^verbatim>\<open>KeyError\<close> when there is no
  factory. \<^verbatim>\<open>defaultdict(list)\<close> has the factory of the empty list.
\<close>

record defaultdict =
  default_factory :: "occurrence list option"
  entries :: decl_index

definition getitem :: "defaultdict \<Rightarrow> string \<Rightarrow> py_error + defaultdict" where
  "getitem dd k =
     (if k \<in> fst ` set (entries dd) then Inr dd
      else (case default_factory dd of
              None \<Rightarrow> Inl KeyError
            | Some v \<Rightarrow> Inr (dd\<lparr>entries := entries dd @ [(k, v)]\<rparr>)))"

text \<open>
  The variables that \<^verbatim>\<open>check_duplicate_declarations\<close> reads and updates. Python gives
  each call a fresh frame; the run below starts from any values at all, also those an
  earlier call left behind, and assigns the variables where the source does.
\<close>

record frame =
  errors_var :: "error list"
  global_declarations_var :: defaultdict
  brace_depth_var :: int

text \<open>
  The loop over the matches of one pattern on one line, the loop over the patterns, the
  loop over the lines, and the final loop over the entries of the dictionary.
\<close>

fun matches_loop :: "match list \<Rightarrow> nat \<Rightarrow> string \<Rightarrow> string \<Rightarrow> frame \<Rightarrow> py_error + frame" where
  "matches_loop [] line_num decl_type line fr = Inr fr"
| "matches_loop (m # ms) line_num decl_type line fr =
     (case match_group m 1 of
        Inl e \<Rightarrow> Inl e
      | Inr var_name \<Rightarrow>
          (case getitem (global_declarations_var fr) var_name of
             Inl e \<Rightarrow> Inl e
           | Inr dd \<Rightarrow>
               matches_loop ms line_num decl_type line
                 (fr\<lparr>global_declarations_var :=
                       dd\<lparr>entries := dict_append (entries dd) var_name
                                         (line_num, decl_type, strip line)\<rparr>\<rparr>)))"

fun patterns_loop ::
  "(string \<times> string) list \<Rightarrow> nat \<Rightarrow> string \<Rightarrow> frame \<Rightarrow> (py_error + frame) option" where
  "patterns_loop [] line_num line fr = Some (Inr fr)"
| "patterns_loop ((kw, decl_type) # ps) line_num line fr =
     (case finditer_run kw None line of
        None \<Rightarrow> None
      | Some matches \<Rightarrow>
          (case matches_loop matches line_num decl_type line fr of
             Inl e \<Rightarrow> Some (Inl e)
           | Inr fr' \<Rightarrow> patterns_loop ps line_num line fr'))"

fun lines_loop :: "string list \<Rightarrow> nat \<Rightarrow> frame \<Rightarrow> (py_error + frame) option" where
  "lines_loop [] line_num fr = Some (Inr fr)"
| "lines_loop (line # rest) line_num fr =
     (let fr1 = fr\<lparr>brace_depth_var :=
                     brace_depth_var fr +
                     (int (str_count line CHR ''{'') - int (str_count line CHR ''}''))\<rparr>;
          line_depth =
            brace_depth_var fr1 - int (str_count line CHR ''{'') + int (str_count line CHR ''}'')
      in if line_depth \<le> 0 then
           (case patterns_loop patterns line_num line fr1 of
              None \<Rightarrow> None
            | Some (Inl e) \<Rightarrow> Some (Inl e)
            | Some (Inr fr2) \<Rightarrow> lines_loop rest (line_num + 1) fr2)
         else lines_loop rest (line_num + 1) fr1)"

fun report_loop :: "decl_index \<Rightarrow> frame \<Rightarrow> frame" where
  "report_loop [] fr = fr"
| "report_loop ((var_name, occs) # d) fr =
     report_loop d
       (if length occs > 1 then fr\<lparr>errors_var := errors_var fr @ [duplicate_error var_name occs]\<rparr>
        else fr)"

definition check_duplicate_declarations_run ::
  "frame \<Rightarrow> string \<Rightarrow> (py_error + error list \<times> frame) option" where
  "check_duplicate_declarations_run fr js_code =
     (let fr1 = fr\<lparr>errors_var := []\<rparr>;
          fr2 = fr1\<lparr>global_declarations_var := \<lparr>default_factory = Some [], entries = []\<rparr>\<rparr>;
          lines = split_lines js_code;
          fr3 = fr2\<lparr>brace_depth_var := 0\<rparr>
      in case lines_loop lines 1 fr3 of
           None \<Rightarrow> None
         | Some (Inl e) \<Rightarrow> Some (Inl e)
         | Some (Inr fr4) \<Rightarrow>
             (let fr5 = report_loop (entries (global_declarations_var fr4)) fr4
              in Some (Inr (errors_var fr5, fr5))))"

text \<open>
  The variables of \<^verbatim>\<open>check_syntax_errors\<close> and its run. None of its operations
  (counting a character, integer arithmetic, formatting, appending to a list) can raise,
  and it has no loop.
\<close>

record syntax_frame =
  syntax_errors_var :: "error list"
  brace_count_var :: int
  paren_count_var :: int
  bracket_count_var :: int

definition check_syntax_errors_run ::
  "syntax_frame \<Rightarrow> string \<Rightarrow> (py_error + error list \<times> syntax_frame) option" where
  "check_syntax_errors_run sf js_code =
     (let sf1 = sf\<lparr>syntax_errors_var := []\<rparr>;
          sf2 = sf1\<lparr>brace_count_var :=
                      int (str_count js_code CHR ''{'') - int (str_count js_code CHR ''}'')\<rparr>;
          sf3 =
            (if brace_count_var sf2 \<noteq> 0 then
               sf2\<lparr>syntax_errors_var := syntax_errors_var sf2 @
                 [\<lparr>etype = ''unmatched_braces'', variable = None, occurrences = None,
                   message = ''Unmatched braces: '' @ str_nat (nat \<bar>brace_count_var sf2\<bar>) @
                             '' '' @
                             (if brace_count_var sf2 > 0 then ''opening'' else ''closing'') @
                             '' braces''\<rparr>]\<rparr>
             else sf2);
          sf4 = sf3\<lparr>paren_count_var :=
                      int (str_count js_code CHR ''('') - int (str_count js_code CHR '')'')\<rparr>;
          sf5 =
            (if paren_count_var sf4 \<noteq> 0 then
               sf4\<lparr>syntax_errors_var := syntax_errors_var sf4 @
                 [\<lparr>etype = ''unmatched_parentheses'', variable = None, occurrences = None,
                   message = ''Unmatched parentheses: '' @
                             str_nat (nat \<bar>paren_count_var sf4\<bar>) @ '' '' @
                             (if paren_count_var sf4 > 0 then ''opening'' else ''closing'') @
                             '' parentheses''\<rparr>]\<rparr>
             else sf4);
          sf6 = sf5\<lparr>bracket_count_var :=
                      int (str_count js_code CHR ''['') - int (str_count js_code CHR '']'')\<rparr>;
          sf7 =
            (if bracket_count_var sf6 \<noteq> 0 then
               sf6\<lparr>syntax_errors_var := syntax_errors_var sf6 @
                 [\<lparr>etype = ''unmatched_brackets'', variable = None, occurrences = None,
                   message = ''Unmatched brackets: '' @
                             str_nat (nat \<bar>bracket_count_var sf6\<bar>) @ '' '' @
                             (if bracket_count_var sf6 > 0 then ''opening'' else ''closing'') @
                             '' brackets''\<rparr>]\<rparr>
             else sf6)
      in Some (Inr (syntax_errors_var sf7, sf7)))"


section \<open>Notions of the specification\<close>

text \<open>
  The specification speaks of the depth before a line: the number of opening braces minus
  the number of closing braces on the lines before it. Lines are numbered from 1, so
  \<open>depth_before lines i\<close> sums over the lines \<open>1 .. i - 1\<close>. \<open>top_level_matches\<close> are the
  pattern matches on the lines whose depth before is at most 0, in the order of the lines,
  \<open>nested_matches\<close> those on the other lines, and \<open>recorded d\<close> are the pairs of an
  identifier and an occurrence held by an index. \<open>matches_from\<close> is the list of top-level
  matches again, computed along the lines with a running depth as the loop does.
\<close>

definition line_delta :: "string \<Rightarrow> int" where
  "line_delta line = int (str_count line CHR ''{'') - int (str_count line CHR ''}'')"

definition depth_before :: "string list \<Rightarrow> nat \<Rightarrow> int" where
  "depth_before lines i = sum_list (map line_delta (take (i - 1) lines))"

definition top_level_matches :: "string list \<Rightarrow> (string \<times> occurrence) list" where
  "top_level_matches lines =
     concat (map (\<lambda>j. if depth_before lines (j + 1) \<le> 0 then line_matches (j + 1) (lines ! j) else [])
               [0..<length lines])"

definition recorded :: "decl_index \<Rightarrow> (string \<times> occurrence) set" where
  "recorded d = {(v, occ). \<exists>occs. (v, occs) \<in> set d \<and> occ \<in> set occs}"

fun matches_from :: "string list \<Rightarrow> nat \<Rightarrow> int \<Rightarrow> (string \<times> occurrence) list" where
  "matches_from [] n b = []"
| "matches_from (l # ls) n b =
     (if b \<le> 0 then line_matches n l else []) @ matches_from ls (n + 1) (b + line_delta l)"

definition nested_matches :: "string list \<Rightarrow> (string \<times> occurrence) list" where
  "nested_matches lines =
     concat (map (\<lambda>j. if depth_before lines (j + 1) \<le> 0 then [] else line_matches (j + 1) (lines ! j))
               [0..<length lines])"

text \<open>
  An identifier is declared at top level once for each match of one of the three patterns
  that captures it on a line whose depth before is at most 0; \<open>top_level_decls\<close> lists
  these occurrences and \<open>nested_decls\<close> those on the other lines. \<open>lookup\<close> reads an
  index, an absent key giving the empty list.
\<close>

definition top_level_decls :: "string \<Rightarrow> string \<Rightarrow> occurrence list" where
  "top_level_decls js_code v =
     map snd (filter (\<lambda>m. fst m = v) (top_level_matches (split_lines js_code)))"

definition nested_decls :: "string \<Rightarrow> string \<Rightarrow> occurrence list" where
  "nested_decls js_code v =
     map snd (filter (\<lambda>m. fst m = v) (nested_matches (split_lines js_code)))"

definition lookup :: "decl_index \<Rightarrow> string \<Rightarrow> occurrence list" where
  "lookup d k = (case map_of d k of None \<Rightarrow> [] | Some vs \<Rightarrow> vs)"

text \<open>
  Selections from an error list: the errors for one identifier and the errors of one type.
  \<open>first_line\<close> is the line of the first occurrence a duplicate error carries, and
  \<open>in_line_order\<close> says that its occurrences stand in the order of their lines.
\<close>

definition for_variable :: "string \<Rightarrow> error list \<Rightarrow> error list" where
  "for_variable v errs = filter (\<lambda>e. variable e = Some v) errs"

definition of_type :: "string \<Rightarrow> error list \<Rightarrow> error list" where
  "of_type t errs = filter (\<lambda>e. etype e = t) errs"

definition first_line :: "error \<Rightarrow> nat" where
  "first_line e = (case occurrences e of Some (occ # _) \<Rightarrow> fst occ | _ \<Rightarrow> 0)"

definition in_line_order :: "error \<Rightarrow> bool" where
  "in_line_order e =
     (case occurrences e of Some occs \<Rightarrow> occs \<noteq> [] \<and> sorted (map fst occs) | None \<Rightarrow> False)"

text \<open>
  The two shapes of an error dictionary: a duplicate declaration carries a variable and at
  least two occurrences, an unbalanced delimiter carries neither and has one of three types.
\<close>

definition is_duplicate_defect :: "error \<Rightarrow> bool" where
  "is_duplicate_defect e =
     (case (variable e, occurrences e) of
        (Some v, Some occs) \<Rightarrow> etype e = ''duplicate_declaration'' \<and> 2 \<le> length occs
      | _ \<Rightarrow> False)"

definition is_unbalanced_defect :: "error \<Rightarrow> bool" where
  "is_unbalanced_defect e =
     (case (variable e, occurrences e) of
        (None, None) \<Rightarrow>
          etype e = ''unmatched_braces'' \<or> etype e = ''unmatched_parentheses'' \<or>
          etype e = ''unmatched_brackets''
      | _ \<Rightarrow> False)"

text \<open>
  The invariant of the index along the scan, with \<open>n\<close> the current line number: no entry
  is empty, no occurrence lies on a later line, and the entries stand in the order of their
  first lines.
\<close>

definition index_ok :: "decl_index \<Rightarrow> nat \<Rightarrow> bool" where
  "index_ok d n =
     ((\<forall>(k, occs) \<in> set d. occs \<noteq> [] \<and> (\<forall>occ \<in> set occs. fst occ \<le> n)) \<and>
      sorted (map (\<lambda>(k, occs). fst (hd occs)) d))"

text \<open>The net count of a delimiter pair over a whole text.\<close>

definition net :: "string \<Rightarrow> char \<Rightarrow> char \<Rightarrow> int" where
  "net js_code opener closer = int (str_count js_code opener) - int (str_count js_code closer)"

text \<open>
  The errors one block contributes to \<^verbatim>\<open>all_errors\<close>, a block without errors, a run
  in which every block of every document is without errors, and the documents of a run:
  the texts of the files that can be read.
\<close>

definition block_errors :: "nat \<Rightarrow> string \<Rightarrow> (nat \<times> error) list" where
  "block_errors i script =
     map (Pair i) (check_duplicate_declarations script @ check_syntax_errors script)"

definition block_clean :: "string \<Rightarrow> bool" where
  "block_clean script \<longleftrightarrow>
     check_duplicate_declarations script = [] \<and> check_syntax_errors script = []"

definition run_clean :: "string list \<Rightarrow> bool" where
  "run_clean html_files =
     list_all (\<lambda>html. list_all block_clean (extract_javascript_from_html html)) html_files"

definition readable :: "html_file \<Rightarrow> bool" where
  "readable f = (case f of Readable html_content \<Rightarrow> True | Unreadable e \<Rightarrow> False)"

definition contents :: "html_file list \<Rightarrow> string list" where
  "contents html_files =
     concat (map (\<lambda>f. case f of Readable html_content \<Rightarrow> [html_content] | Unreadable e \<Rightarrow> [])
               html_files)"

definition documents :: "html_file list option \<Rightarrow> string list" where
  "documents templates =
     (case templates of None \<Rightarrow> [] | Some html_files \<Rightarrow> contents html_files)"

text \<open>Concrete texts.\<close>

definition scenario_a :: string where
  "scenario_a =
     ''let a = 1;'' @ [newline] @ ''function f(){ let a = 2; }'' @ [newline] @ ''let a = 3;''"

definition two_decls :: string where
  "two_decls = ''let a;'' @ [newline] @ ''var a;''"

definition dollar_twice :: string where
  "dollar_twice = ''let $ = 1;'' @ [newline] @ ''let $ = 2;''"

definition declared_once :: string where
  "declared_once = ''let a;'' @ [newline] @ ''let a$b;''"


section \<open>Properties of the scope tracker\<close>

subsection \<open>The loop records the top-level matches\<close>

lemma record_all_append: "record_all d (xs @ ys) = record_all (record_all d xs) ys"
  by (induction xs arbitrary: d) auto

lemma scan_lines_matches_from:
  "scan_lines ls n b d = record_all d (matches_from ls n b)"
proof (induction ls arbitrary: n b d)
  case Nil
  show ?case by simp
next
  case (Cons l ls)
  show ?case
    by (simp add: Cons.IH Let_def line_delta_def record_all_append)
qed

lemma matches_from_index:
  "matches_from ls n b =
     concat (map (\<lambda>j. if b + sum_list (map line_delta (take j ls)) \<le> 0
                       then line_matches (n + j) (ls ! j) else [])
               [0..<length ls])"
proof (induction ls arbitrary: n b)
  case Nil
  show ?case by simp
next
  case (Cons l ls)
  have "[0..<length (l # ls)] = 0 # map Suc [0..<length ls]"
    by (simp add: upt_conv_Cons map_Suc_upt del: upt_Suc)
  then show ?case
    unfolding matches_from.simps Cons.IH
    by (simp add: comp_def add.assoc del: upt_Suc cong: if_cong)
qed

lemma global_declarations_eq:
  "global_declarations js_code = record_all [] (top_level_matches (split_lines js_code))"
  by (simp add: global_declarations_def scan_lines_matches_from matches_from_index
      top_level_matches_def depth_before_def cong: if_cong)

lemma recorded_Cons: "recorded ((k, vs) # d) = Pair k ` set vs \<union> recorded d"
  by (auto simp: recorded_def)

lemma recorded_empty: "recorded [] = {}"
  by (simp add: recorded_def)

lemma recorded_dict_append: "recorded (dict_append d k v) = insert (k, v) (recorded d)"
  by (induction d k v rule: dict_append.induct) (auto simp: recorded_Cons recorded_empty)

lemma recorded_record_all: "recorded (record_all d ms) = recorded d \<union> set ms"
  by (induction d ms rule: record_all.induct) (auto simp: recorded_dict_append)

lemma set_top_level_matches:
  "set (top_level_matches lines) =
     {m. \<exists>i. 1 \<le> i \<and> i \<le> length lines \<and> depth_before lines i \<le> 0 \<and>
             m \<in> set (line_matches i (lines ! (i - 1)))}"
proof -
  have "set (top_level_matches lines) =
     {m. \<exists>j. j < length lines \<and> depth_before lines (j + 1) \<le> 0 \<and>
             m \<in> set (line_matches (j + 1) (lines ! j))}"
    by (auto simp: top_level_matches_def split: if_splits)
  also have "\<dots> = {m. \<exists>i. 1 \<le> i \<and> i \<le> length lines \<and> depth_before lines i \<le> 0 \<and>
             m \<in> set (line_matches i (lines ! (i - 1)))}"
  proof (intro Collect_cong iffI; elim exE conjE)
    fix m j
    assume "j < length lines" "depth_before lines (j + 1) \<le> 0"
      "m \<in> set (line_matches (j + 1) (lines ! j))"
    then show "\<exists>i. 1 \<le> i \<and> i \<le> length lines \<and> depth_before lines i \<le> 0 \<and>
             m \<in> set (line_matches i (lines ! (i - 1)))"
      by (intro exI [of _ "j + 1"]) simp
  next
    fix m i
    assume "1 \<le> i" "i \<le> length lines" "depth_before lines i \<le> 0"
      "m \<in> set (line_matches i (lines ! (i - 1)))"
    then show "\<exists>j. j < length lines \<and> depth_before lines (j + 1) \<le> 0 \<and>
             m \<in> set (line_matches (j + 1) (lines ! j))"
      by (intro exI [of _ "i - 1"]) simp
  qed
  finally show ?thesis .
qed

subsection \<open>The index as a grouping of the matches\<close>

lemma keys_dict_append:
  "map fst (dict_append d k v) = (if k \<in> fst ` set d then map fst d else map fst d @ [k])"
  by (induction d k v rule: dict_append.induct) auto

lemma distinct_dict_append:
  "distinct (map fst d) \<Longrightarrow> distinct (map fst (dict_append d k v))"
  by (simp add: keys_dict_append)

lemma map_of_dict_append:
  "map_of (dict_append d k v) k' = (if k' = k then Some (lookup d k @ [v]) else map_of d k')"
  by (induction d k v rule: dict_append.induct) (auto simp: lookup_def)

lemma lookup_dict_append:
  "lookup (dict_append d k v) k' = (if k' = k then lookup d k @ [v] else lookup d k')"
  by (simp add: lookup_def map_of_dict_append)

lemma distinct_record_all:
  "distinct (map fst d) \<Longrightarrow> distinct (map fst (record_all d ms))"
  by (induction d ms rule: record_all.induct) (auto simp: distinct_dict_append)

lemma lookup_record_all:
  "lookup (record_all d ms) k = lookup d k @ map snd (filter (\<lambda>m. fst m = k) ms)"
  by (induction d ms rule: record_all.induct) (auto simp: lookup_dict_append)

lemma lookup_in_index: "distinct (map fst d) \<Longrightarrow> (k, occs) \<in> set d \<Longrightarrow> lookup d k = occs"
  by (simp add: lookup_def)

lemma for_variable_duplicates:
  "distinct (map fst d) \<Longrightarrow>
   for_variable k (duplicates d) =
     (if k \<in> fst ` set d \<and> length (lookup d k) > 1 then [duplicate_error k (lookup d k)] else [])"
proof (induction d)
  case Nil
  show ?case by (simp add: for_variable_def)
next
  case (Cons entry d)
  obtain var_name occs where entry: "entry = (var_name, occs)" by (cases entry)
  from Cons have IH: "for_variable k (duplicates d) =
     (if k \<in> fst ` set d \<and> length (lookup d k) > 1 then [duplicate_error k (lookup d k)] else [])"
    by simp
  from Cons.prems have notin: "var_name \<notin> fst ` set d" by (simp add: entry)
  show ?case
  proof (cases "k = var_name")
    case True
    with notin have "for_variable k (duplicates d) = []" using IH by simp
    with True show ?thesis
      by (simp add: entry for_variable_def lookup_def duplicate_error_def)
  next
    case False
    then have "lookup (entry # d) k = lookup d k"
      by (simp add: entry lookup_def)
    with False IH show ?thesis
      by (auto simp: entry for_variable_def duplicate_error_def)
  qed
qed

lemma for_variable_check:
  "for_variable v (check_duplicate_declarations js_code) =
     (if length (top_level_decls js_code v) > 1
      then [duplicate_error v (top_level_decls js_code v)] else [])"
proof -
  let ?d = "global_declarations js_code"
  have d: "distinct (map fst ?d)"
    by (simp add: global_declarations_eq distinct_record_all)
  have "lookup [] v = []" by (simp add: lookup_def)
  then have l: "lookup ?d v = top_level_decls js_code v"
    by (simp add: global_declarations_eq lookup_record_all top_level_decls_def)
  have "1 < length (lookup ?d v) \<Longrightarrow> v \<in> fst ` set ?d"
    by (auto simp: lookup_def split: option.splits dest: map_of_SomeD intro: rev_image_eqI)
  then show ?thesis
    unfolding check_duplicate_declarations_def for_variable_duplicates [OF d] l [symmetric]
    by auto
qed

subsection \<open>Line numbers along the scan\<close>

lemma line_matches_line: "m \<in> set (line_matches n l) \<Longrightarrow> fst (snd m) = n"
  by (auto simp: line_matches_def)

lemma matches_from_lines: "m \<in> set (matches_from ls n b) \<Longrightarrow> n \<le> fst (snd m)"
proof (induction ls arbitrary: n b)
  case Nil
  then show ?case by simp
next
  case (Cons l ls)
  from Cons.prems consider "m \<in> set (line_matches n l)" | "m \<in> set (matches_from ls (n + 1) (b + line_delta l))"
    by (auto split: if_splits)
  then show ?case
  proof cases
    case 1
    then show ?thesis by (simp add: line_matches_line)
  next
    case 2
    then have "n + 1 \<le> fst (snd m)" by (rule Cons.IH)
    then show ?thesis by simp
  qed
qed

lemma sorted_map_const:
  fixes c :: nat
  assumes "\<And>x. x \<in> set xs \<Longrightarrow> f x = c"
  shows "sorted (map f xs)"
  using assms by (induction xs) auto

lemma sorted_matches_from: "sorted (map (\<lambda>m. fst (snd m)) (matches_from ls n b))"
proof (induction ls arbitrary: n b)
  case Nil
  show ?case by simp
next
  case (Cons l ls)
  have same: "sorted (map (\<lambda>m. fst (snd m)) (line_matches n l))"
    by (rule sorted_map_const [of _ _ n]) (simp add: line_matches_line)
  have later: "\<forall>x \<in> set (line_matches n l). \<forall>y \<in> set (matches_from ls (n + 1) (b + line_delta l)).
      fst (snd x) \<le> fst (snd y)"
  proof (intro ballI)
    fix x y
    assume "x \<in> set (line_matches n l)"
      and "y \<in> set (matches_from ls (n + 1) (b + line_delta l))"
    then have "fst (snd x) = n" and "n + 1 \<le> fst (snd y)"
      by (simp_all add: line_matches_line matches_from_lines)
    then show "fst (snd x) \<le> fst (snd y)" by simp
  qed
  show ?case
    using same later Cons.IH [of "n + 1" "b + line_delta l"]
    by (simp add: sorted_append)
qed

lemma top_level_matches_from: "top_level_matches lines = matches_from lines 1 0"
  by (simp add: matches_from_index top_level_matches_def depth_before_def cong: if_cong)

lemma sorted_top_level_matches: "sorted (map (\<lambda>m. fst (snd m)) (top_level_matches lines))"
  by (simp only: top_level_matches_from sorted_matches_from)

lemma sorted_top_level_decls: "sorted (map fst (top_level_decls js_code v))"
proof -
  have "map fst (top_level_decls js_code v) =
      map (\<lambda>m. fst (snd m)) (filter (\<lambda>m. fst m = v) (top_level_matches (split_lines js_code)))"
    by (simp add: top_level_decls_def comp_def)
  then show ?thesis
    by (simp only: sorted_filter sorted_top_level_matches)
qed

subsection \<open>The order of the index\<close>

lemma index_ok_tail: "index_ok (entry # d) n \<Longrightarrow> index_ok d n"
  by (auto simp: index_ok_def)

lemma index_ok_mono: "index_ok d n \<Longrightarrow> n \<le> m \<Longrightarrow> index_ok d m"
  by (fastforce simp: index_ok_def)

lemma first_lines_dict_append:
  assumes "\<forall>(k, occs) \<in> set d. occs \<noteq> []"
  shows "set (map (\<lambda>(k, occs). fst (hd occs)) (dict_append d k v))
           \<subseteq> insert (fst v) (set (map (\<lambda>(k, occs). fst (hd occs)) d))"
  using assms by (induction d k v rule: dict_append.induct) auto

lemma index_ok_dict_append:
  assumes "index_ok d n" and "n \<le> fst v"
  shows "index_ok (dict_append d k v) (fst v)"
  using assms
proof (induction d k v rule: dict_append.induct)
  case (1 k v)
  show ?case by (simp add: index_ok_def)
next
  case (2 k' vs d k v)
  from "2.prems" have vs: "vs \<noteq> []" and le: "\<forall>occ \<in> set vs. fst occ \<le> n"
    and tl: "index_ok d n"
    and srt: "sorted (fst (hd vs) # map (\<lambda>(k, occs). fst (hd occs)) d)"
    by (auto simp: index_ok_def)
  show ?case
  proof (cases "k' = k")
    case True
    have "index_ok ((k', vs @ [v]) # d) (fst v)"
      using vs le tl srt "2.prems"(2) index_ok_mono [OF tl "2.prems"(2)]
      by (auto simp: index_ok_def)
    with True show ?thesis by simp
  next
    case False
    with "2.IH" tl "2.prems"(2) have IH: "index_ok (dict_append d k v) (fst v)" by simp
    have ne: "\<forall>(k, occs) \<in> set d. occs \<noteq> []" using tl by (auto simp: index_ok_def)
    have hd_le: "fst (hd vs) \<le> n" using vs le by simp
    have "\<forall>x \<in> set (map (\<lambda>(k, occs). fst (hd occs)) (dict_append d k v)). fst (hd vs) \<le> x"
    proof
      fix x
      assume "x \<in> set (map (\<lambda>(k, occs). fst (hd occs)) (dict_append d k v))"
      with first_lines_dict_append [OF ne, of k v]
      have "x = fst v \<or> x \<in> set (map (\<lambda>(k, occs). fst (hd occs)) d)" by auto
      then show "fst (hd vs) \<le> x"
        using hd_le "2.prems"(2) srt by auto
    qed
    with IH vs le "2.prems"(2) False show ?thesis
      by (auto simp: index_ok_def)
  qed
qed

lemma index_ok_record_all:
  assumes "index_ok d n" and "sorted (n # map (\<lambda>m. fst (snd m)) ms)"
  shows "\<exists>m. index_ok (record_all d ms) m"
  using assms
proof (induction d ms arbitrary: n rule: record_all.induct)
  case (1 d)
  then show ?case by auto
next
  case (2 d var_name occ ms)
  from "2.prems" have "n \<le> fst occ" by simp
  with "2.prems"(1) have "index_ok (dict_append d var_name occ) (fst occ)"
    by (rule index_ok_dict_append)
  moreover from "2.prems"(2) have "sorted (fst occ # map (\<lambda>m. fst (snd m)) ms)"
    by (simp add: comp_def)
  ultimately show ?case by (simp add: "2.IH")
qed

lemma index_ok_global: "\<exists>m. index_ok (global_declarations js_code) m"
proof -
  have "index_ok [] 0" by (simp add: index_ok_def)
  moreover have "sorted (0 # map (\<lambda>m. fst (snd m)) (top_level_matches (split_lines js_code)))"
    using sorted_top_level_matches by simp
  ultimately show ?thesis
    unfolding global_declarations_eq by (rule index_ok_record_all)
qed

lemma first_line_duplicate_error:
  "occs \<noteq> [] \<Longrightarrow> first_line (duplicate_error k occs) = fst (hd occs)"
  by (cases occs) (simp_all add: first_line_def duplicate_error_def)

lemma first_lines_duplicates:
  assumes "\<forall>(k, occs) \<in> set d. occs \<noteq> []"
  shows "set (map first_line (duplicates d)) \<subseteq> set (map (\<lambda>(k, occs). fst (hd occs)) d)"
  using assms by (induction d rule: duplicates.induct) (auto simp: first_line_duplicate_error)

lemma sorted_duplicates: "index_ok d n \<Longrightarrow> sorted (map first_line (duplicates d))"
proof (induction d rule: duplicates.induct)
  case 1
  show ?case by simp
next
  case (2 var_name occs d)
  from "2.prems" have tl: "index_ok d n" by (rule index_ok_tail)
  then have ne: "\<forall>(k, occs) \<in> set d. occs \<noteq> []" by (auto simp: index_ok_def)
  from "2.prems" have occs: "occs \<noteq> []"
    and srt: "\<forall>x \<in> set (map (\<lambda>(k, occs). fst (hd occs)) d). fst (hd occs) \<le> x"
    by (auto simp: index_ok_def)
  from "2.IH" tl have IH: "sorted (map first_line (duplicates d))" by auto
  from first_lines_duplicates [OF ne] srt
  have "\<forall>x \<in> set (map first_line (duplicates d)). fst (hd occs) \<le> x" by blast
  with IH occs show ?case by (simp add: first_line_duplicate_error)
qed

lemma sorted_first_lines: "sorted (map first_line (check_duplicate_declarations js_code))"
  using index_ok_global [of js_code] sorted_duplicates
  unfolding check_duplicate_declarations_def by blast

lemma duplicates_types: "e \<in> set (duplicates d) \<Longrightarrow> etype e = ''duplicate_declaration''"
  by (induction d rule: duplicates.induct) (auto simp: duplicate_error_def split: if_splits)

subsection \<open>What a pattern captures\<close>

lemma space_not_word: "is_space c \<Longrightarrow> \<not> is_word c"
  by (auto simp: is_space_def is_word_def Let_def)

lemma match_here_iff:
  "match_here kw prev rest = Some (name, rest') \<longleftrightarrow>
     word_boundary prev rest \<and>
     (\<exists>ws. rest = kw @ ws @ name @ rest' \<and> ws \<noteq> [] \<and> list_all is_space ws \<and>
           name \<noteq> [] \<and> list_all is_word name \<and> (rest' = [] \<or> \<not> is_word (hd rest')))"
  (is "?L \<longleftrightarrow> ?R")
proof
  assume ?L
  let ?a = "drop (length kw) rest"
  let ?ws = "takeWhile is_space ?a"
  let ?b = "dropWhile is_space ?a"
  from \<open>?L\<close> have wb: "word_boundary prev rest" and kw: "take (length kw) rest = kw"
    and ws: "?ws \<noteq> []" and n: "name = takeWhile is_word ?b" and ne: "name \<noteq> []"
    and r: "rest' = dropWhile is_word ?b"
    by (auto simp: match_here_def Let_def split: if_splits)
  have "rest = take (length kw) rest @ ?a" by simp
  also have "?a = ?ws @ ?b" by simp
  also have "?b = name @ rest'" unfolding n r by simp
  finally have "rest = kw @ ?ws @ name @ rest'" using kw by simp
  moreover have "list_all is_space ?ws"
    by (simp add: list_all_iff) (meson set_takeWhileD)
  moreover have "list_all is_word name"
    unfolding n by (simp add: list_all_iff) (meson set_takeWhileD)
  moreover have "rest' = [] \<or> \<not> is_word (hd rest')"
    unfolding r by (metis hd_dropWhile)
  ultimately show ?R using wb ws ne by blast
next
  assume ?R
  then obtain ws where wb: "word_boundary prev rest"
    and rest: "rest = kw @ ws @ name @ rest'" and ws: "ws \<noteq> []" "list_all is_space ws"
    and name: "name \<noteq> []" "list_all is_word name"
    and r: "rest' = [] \<or> \<not> is_word (hd rest')"
    by blast
  from name have "is_word (hd name)" by (cases name) simp_all
  then have nsp: "\<not> is_space (hd (name @ rest'))" using name(1) space_not_word by auto
  have tw: "takeWhile is_space (ws @ name @ rest') = ws"
    using ws(2) nsp name(1)
    by (metis (no_types, lifting) append_is_Nil_conv list.collapse list_all_iff takeWhile_append2 takeWhile.simps(2) append_Nil2 takeWhile_tail)
  have dw: "dropWhile is_space (ws @ name @ rest') = name @ rest'"
    using tw by (metis append_same_eq takeWhile_dropWhile_id same_append_eq)
  have tn: "takeWhile is_word (name @ rest') = name"
    using name(2) r
    by (metis (no_types, lifting) append_Nil2 list.collapse list_all_iff takeWhile_append2 takeWhile.simps(1) takeWhile.simps(2) takeWhile_tail)
  have dn: "dropWhile is_word (name @ rest') = rest'"
    using tn by (metis same_append_eq takeWhile_dropWhile_id)
  show ?L
    using wb ws(1) name(1) by (simp add: match_here_def rest tw dw tn dn)
qed

lemma match_here_name:
  "match_here kw prev rest = Some (name, rest') \<Longrightarrow> name \<noteq> [] \<and> is_word (hd name)"
proof -
  assume "match_here kw prev rest = Some (name, rest')"
  then have "name \<noteq> []" and "list_all is_word name"
    by (auto simp: match_here_iff)
  then show ?thesis by (cases name) simp_all
qed

lemma finditer_names:
  "name \<in> set (finditer kw prev rest) \<Longrightarrow> name \<noteq> [] \<and> is_word (hd name)"
proof (induction kw prev rest rule: finditer.induct)
  case (1 kw prev)
  then show ?case by simp
next
  case (2 kw prev c cs)
  show ?case
  proof (cases "match_here kw prev (c # cs)")
    case None
    with 2 show ?thesis by simp
  next
    case (Some a)
    obtain n r where a: "a = (n, r)" by (cases a)
    with Some 2 have "name = n \<or> name \<in> set (finditer kw (Some (last n)) r)" by simp
    then show ?thesis
    proof
      assume "name = n"
      with Some a show ?thesis using match_here_name by blast
    next
      assume "name \<in> set (finditer kw (Some (last n)) r)"
      with "2.IH"(2) [OF Some [unfolded a] refl] show ?thesis by simp
    qed
  qed
qed

lemma line_matches_names:
  "m \<in> set (line_matches n l) \<Longrightarrow> fst m \<noteq> [] \<and> is_word (hd (fst m))"
  by (auto simp: line_matches_def dest: finditer_names)

lemma top_level_matches_names:
  "m \<in> set (top_level_matches lines) \<Longrightarrow> fst m \<noteq> [] \<and> is_word (hd (fst m))"
  by (auto simp: top_level_matches_def split: if_splits dest: line_matches_names)

lemma keys_record_all: "fst ` set (record_all d ms) = fst ` set d \<union> fst ` set ms"
proof (induction d ms rule: record_all.induct)
  case (1 d)
  show ?case by simp
next
  case (2 d var_name occ ms)
  have "fst ` set (dict_append d var_name occ) = insert var_name (fst ` set d)"
    using keys_dict_append [of d var_name occ]
    by (metis (no_types, lifting) insert_absorb list.set_map set_append list.simps(15) Un_insert_right sup_bot.right_neutral empty_set)
  with 2 show ?case by auto
qed

lemma keys_global:
  "v \<in> fst ` set (global_declarations js_code) \<Longrightarrow> v \<noteq> [] \<and> is_word (hd v)"
  unfolding global_declarations_eq keys_record_all
  using top_level_matches_names by auto

lemma no_decls_no_defect:
  "v = [] \<or> \<not> is_word (hd v) \<Longrightarrow> top_level_decls js_code v = []"
  using top_level_matches_names [of _ "split_lines js_code"]
  by (auto simp: top_level_decls_def filter_empty_conv)

lemma index_lists:
  assumes "(k, occs) \<in> set (global_declarations js_code)"
  shows "occs = top_level_decls js_code k"
proof -
  have "distinct (map fst (global_declarations js_code))"
    by (simp add: global_declarations_eq distinct_record_all)
  with assms have "lookup (global_declarations js_code) k = occs"
    by (simp add: lookup_in_index)
  moreover have "lookup [] k = []" by (simp add: lookup_def)
  ultimately show ?thesis
    by (simp add: global_declarations_eq lookup_record_all top_level_decls_def)
qed

lemma duplicates_in_line_order:
  assumes "\<And>k occs. (k, occs) \<in> set d \<Longrightarrow> sorted (map fst occs)"
  shows "list_all in_line_order (duplicates d)"
  using assms
proof (induction d rule: duplicates.induct)
  case 1
  show ?case by simp
next
  case (2 var_name occs d)
  then have "list_all in_line_order (duplicates d)" by (auto split: if_splits)
  moreover have "1 < length occs \<Longrightarrow> in_line_order (duplicate_error var_name occs)"
    using "2.prems" [of var_name occs]
    by (auto simp: in_line_order_def duplicate_error_def)
  ultimately show ?case by simp
qed

lemma check_in_line_order: "list_all in_line_order (check_duplicate_declarations js_code)"
  unfolding check_duplicate_declarations_def
proof (rule duplicates_in_line_order)
  fix k occs
  assume "(k, occs) \<in> set (global_declarations js_code)"
  then have "occs = top_level_decls js_code k" by (rule index_lists)
  then show "sorted (map fst occs)" by (simp only: sorted_top_level_decls)
qed


section \<open>Properties of the balance checker and of the run\<close>

subsection \<open>The decimal rendering determines the number\<close>

lemma digit_char_inj:
  assumes "a < 10" and "b < 10" and "digit_char a = digit_char b"
  shows "a = b"
proof -
  from assms(3) have "(48 + a) mod 256 = (48 + b) mod 256"
    unfolding digit_char_def by (simp only: char_of_quasi_inj)
  moreover have "(48 + a) mod 256 = 48 + a" "(48 + b) mod 256 = 48 + b"
    using assms(1,2) by simp_all
  ultimately show ?thesis by arith
qed

lemma str_nat_nonempty: "str_nat n \<noteq> []"
  by (subst str_nat.simps) simp

lemma str_nat_inj: "str_nat m = str_nat n \<Longrightarrow> m = n"
proof (induction m arbitrary: n rule: str_nat.induct)
  case (1 m)
  show ?case
  proof (cases "m < 10")
    case True
    then have m: "str_nat m = [digit_char m]" by (subst str_nat.simps) simp
    show ?thesis
    proof (cases "n < 10")
      case n: True
      then have "str_nat n = [digit_char n]" by (subst str_nat.simps) simp
      with m "1.prems" True n show ?thesis by (simp add: digit_char_inj)
    next
      case False
      then have "str_nat n = str_nat (n div 10) @ [digit_char (n mod 10)]"
        by (subst str_nat.simps) simp
      with m "1.prems" str_nat_nonempty [of "n div 10"] show ?thesis by simp
    qed
  next
    case False
    then have m: "str_nat m = str_nat (m div 10) @ [digit_char (m mod 10)]"
      by (subst str_nat.simps) simp
    show ?thesis
    proof (cases "n < 10")
      case True
      then have "str_nat n = [digit_char n]" by (subst str_nat.simps) simp
      with m "1.prems" str_nat_nonempty [of "m div 10"] show ?thesis by simp
    next
      case n: False
      then have "str_nat n = str_nat (n div 10) @ [digit_char (n mod 10)]"
        by (subst str_nat.simps) simp
      with m "1.prems" have p: "str_nat (m div 10) = str_nat (n div 10)"
        and d: "digit_char (m mod 10) = digit_char (n mod 10)" by simp_all
      from "1.IH" [OF False p] have "m div 10 = n div 10" .
      moreover from d have "m mod 10 = n mod 10" by (simp add: digit_char_inj)
      ultimately show ?thesis by (metis div_mult_mod_eq)
    qed
  qed
qed

lemma str_nat_eq_iff: "str_nat m = str_nat n \<longleftrightarrow> m = n"
  using str_nat_inj by blast

subsection \<open>The errors of each type\<close>

lemma of_type_braces:
  "of_type ''unmatched_braces'' (check_syntax_errors js_code) =
     (if net js_code CHR ''{'' CHR ''}'' = 0 then []
      else [\<lparr>etype = ''unmatched_braces'', variable = None, occurrences = None,
             message = ''Unmatched braces: '' @
                       str_nat (nat \<bar>net js_code CHR ''{'' CHR ''}''\<bar>) @ '' '' @
                       (if net js_code CHR ''{'' CHR ''}'' > 0 then ''opening'' else ''closing'') @
                       '' braces''\<rparr>])"
  by (simp add: check_syntax_errors_def of_type_def net_def Let_def)

lemma of_type_parentheses:
  "of_type ''unmatched_parentheses'' (check_syntax_errors js_code) =
     (if net js_code CHR ''('' CHR '')'' = 0 then []
      else [\<lparr>etype = ''unmatched_parentheses'', variable = None, occurrences = None,
             message = ''Unmatched parentheses: '' @
                       str_nat (nat \<bar>net js_code CHR ''('' CHR '')''\<bar>) @ '' '' @
                       (if net js_code CHR ''('' CHR '')'' > 0 then ''opening'' else ''closing'') @
                       '' parentheses''\<rparr>])"
  by (simp add: check_syntax_errors_def of_type_def net_def Let_def)

lemma of_type_brackets:
  "of_type ''unmatched_brackets'' (check_syntax_errors js_code) =
     (if net js_code CHR ''['' CHR '']'' = 0 then []
      else [\<lparr>etype = ''unmatched_brackets'', variable = None, occurrences = None,
             message = ''Unmatched brackets: '' @
                       str_nat (nat \<bar>net js_code CHR ''['' CHR '']''\<bar>) @ '' '' @
                       (if net js_code CHR ''['' CHR '']'' > 0 then ''opening'' else ''closing'') @
                       '' brackets''\<rparr>])"
  by (simp add: check_syntax_errors_def of_type_def net_def Let_def)

lemma syntax_error_types:
  "subseq (map etype (check_syntax_errors js_code))
     [''unmatched_braces'', ''unmatched_parentheses'', ''unmatched_brackets'']"
  by (simp add: check_syntax_errors_def Let_def)

lemma syntax_errors_split:
  "check_syntax_errors js_code =
     of_type ''unmatched_braces'' (check_syntax_errors js_code) @
     of_type ''unmatched_parentheses'' (check_syntax_errors js_code) @
     of_type ''unmatched_brackets'' (check_syntax_errors js_code)"
  by (simp add: check_syntax_errors_def of_type_def Let_def)

subsection \<open>Merging per block\<close>

lemma collect_errors_eq:
  "collect_errors scripts i all_errors =
     all_errors @ concat (map (\<lambda>(j, script). block_errors j script) (enumerate i scripts))"
  by (induction scripts arbitrary: i all_errors) (simp_all add: Let_def block_errors_def)

lemma collect_errors_empty_iff:
  "collect_errors scripts i [] = [] \<longleftrightarrow> list_all block_clean scripts"
  by (induction scripts arbitrary: i)
     (auto simp: collect_errors_eq block_errors_def block_clean_def)

lemma validate_html_file_flag:
  "snd (validate_html_file html) = list_all block_clean (extract_javascript_from_html html)"
  by (auto simp: validate_html_file_def Let_def collect_errors_empty_iff)

lemma readable_simps:
  "readable (Readable html) = True" "readable (Unreadable e) = False"
  by (simp_all add: readable_def)

lemma contents_simps:
  "contents [] = []"
  "contents (Readable html # fs) = html # contents fs"
  "contents (Unreadable e # fs) = contents fs"
  by (simp_all add: contents_def)

lemma validate_all_readable:
  "list_all readable html_files \<Longrightarrow>
   validate_all html_files all_valid = Inr (all_valid \<and> run_clean (contents html_files))"
proof (induction html_files arbitrary: all_valid)
  case Nil
  show ?case by (simp add: run_clean_def contents_simps)
next
  case (Cons f fs)
  from Cons.prems obtain html where f: "f = Readable html" and fs: "list_all readable fs"
    by (cases f) (auto simp: readable_simps)
  obtain reported valid where v: "validate_html_file html = (reported, valid)"
    by (cases "validate_html_file html")
  then have valid: "valid = list_all block_clean (extract_javascript_from_html html)"
    using validate_html_file_flag [of html] by simp
  have c: "contents (f # fs) = html # contents fs" by (simp add: f contents_simps)
  show ?case
    unfolding c
    by (auto simp: f validate_html_path_def read_file_def v valid Cons.IH [OF fs] run_clean_def)
qed

lemma validate_all_unreadable:
  "\<not> list_all readable html_files \<Longrightarrow> \<exists>e. validate_all html_files all_valid = Inl e"
proof (induction html_files arbitrary: all_valid)
  case Nil
  then show ?case by simp
next
  case (Cons f fs)
  show ?case
  proof (cases f)
    case (Readable html)
    with Cons.prems have "\<not> list_all readable fs" by (simp add: readable_simps)
    from Cons.IH [OF this] show ?thesis
      by (auto simp: Readable validate_html_path_def read_file_def split: prod.splits)
  next
    case (Unreadable e)
    then show ?thesis by (simp add: validate_html_path_def read_file_def)
  qed
qed

lemma main_exit:
  "main (Some html_files) =
     (if list_all readable html_files \<and> run_clean (contents html_files) then 0 else 1)"
proof (cases "list_all readable html_files")
  case True
  have "run_clean (contents []) = True" by (simp add: run_clean_def contents_simps)
  with True show ?thesis
    by (cases "html_files = []") (simp_all add: main_def validate_all_readable)
next
  case False
  then have "html_files \<noteq> []" by auto
  moreover from False obtain e where "validate_all html_files True = Inl e"
    using validate_all_unreadable by blast
  ultimately show ?thesis using False by (simp add: main_def)
qed

lemma contents_append: "contents (xs @ ys) = contents xs @ contents ys"
  by (simp add: contents_def)

lemma run_clean_skip:
  "extract_javascript_from_html html = [] \<Longrightarrow>
   run_clean (xs @ html # ys) = run_clean (xs @ ys)"
  by (simp add: run_clean_def)

subsection \<open>Shape of the results\<close>

lemma duplicates_shape: "list_all is_duplicate_defect (duplicates d)"
  by (induction d rule: duplicates.induct)
     (auto simp: is_duplicate_defect_def duplicate_error_def)

lemma syntax_shape: "list_all is_unbalanced_defect (check_syntax_errors js_code)"
  by (simp add: check_syntax_errors_def is_unbalanced_defect_def Let_def)

lemma syntax_length: "length (check_syntax_errors js_code) \<le> 3"
  by (simp add: check_syntax_errors_def Let_def)

lemma empty_text_clean:
  "check_duplicate_declarations [] = [] \<and> check_syntax_errors [] = []"
  by (simp add: check_duplicate_declarations_def global_declarations_def line_matches_def
      patterns_def check_syntax_errors_def str_count_def)

subsection \<open>Evaluations\<close>

lemma scenario_a_eval:
  "check_duplicate_declarations scenario_a =
     [\<lparr>etype = ''duplicate_declaration'',
       variable = Some ''a'',
       occurrences = Some [(1, ''let'', ''let a = 1;''),
                           (2, ''let'', ''function f(){ let a = 2; }''),
                           (3, ''let'', ''let a = 3;'')],
       message = ''Variable '' @ [quote] @ ''a'' @ [quote] @
                 '' is declared 3 times in global scope''\<rparr>]"
  by code_simp

lemma two_decls_eval:
  "top_level_decls two_decls ''a'' = [(1, ''let'', ''let a;''), (2, ''var'', ''var a;'')]"
  by code_simp

lemma one_decl_eval:
  "top_level_decls ''const b'' ''b'' = [(1, ''const'', ''const b'')] \<and>
   nested_decls ''const b'' ''b'' = []"
  by code_simp

lemma dollar_twice_eval: "check_duplicate_declarations dollar_twice = []"
  by code_simp

lemma declared_once_eval:
  "map (map_option (map fst) \<circ> occurrences)
     (for_variable ''a'' (check_duplicate_declarations declared_once)) = [Some [1, 2]]"
  by code_simp

lemma dollar_twice_none:
  "for_variable ''$'' (check_duplicate_declarations dollar_twice) = []"
  by (simp add: dollar_twice_eval for_variable_def)

lemma counterexample_lines_eval:
  "split_lines dollar_twice = [''let $ = 1;'', ''let $ = 2;''] \<and>
   map (depth_before (split_lines dollar_twice)) [1, 2] = [0, 0] \<and>
   split_lines declared_once = [''let a;'', ''let a$b;''] \<and>
   map (depth_before (split_lines declared_once)) [1, 2] = [0, 0]"
  by code_simp

lemma no_script_eval: "extract_javascript_from_html ''<p>hi</p>'' = []"
  by code_simp


section \<open>Properties of the runs\<close>

lemma finditer_run_eq:
  "\<exists>ms. finditer_run kw prev rest = Some ms \<and> map (\<lambda>m. match_group m 1) ms = map Inr (finditer kw prev rest)"
proof (induction kw prev rest rule: finditer.induct)
  case (1 kw prev)
  show ?case by (subst finditer_run.simps) simp
next
  case (2 kw prev c cs)
  show ?case
  proof (cases "match_here kw prev (c # cs)")
    case None
    with "2.IH"(1) show ?thesis by (subst finditer_run.simps) simp
  next
    case (Some a)
    obtain name rest' where a: "a = (name, rest')" by (cases a)
    from "2.IH"(2) [OF Some [unfolded a] refl] obtain ms where
      ms: "finditer_run kw (Some (last name)) rest' = Some ms"
      "map (\<lambda>m. match_group m 1) ms = map Inr (finditer kw (Some (last name)) rest')" by blast
    have g: "match_group [w, name] 1 = Inr name" for w
      by (simp add: match_group_def)
    show ?thesis
      by (subst finditer_run.simps) (simp add: Some a ms g del: One_nat_def)
  qed
qed


lemma dict_append_fresh:
  "k \<notin> fst ` set d \<Longrightarrow> dict_append (d @ [(k, [])]) k occ = dict_append d k occ"
  by (induction d) auto

lemma matches_loop_eq:
  assumes "map (\<lambda>m. match_group m 1) ms = map Inr names"
    and "default_factory (global_declarations_var fr) = Some []"
  shows "\<exists>fr'. matches_loop ms line_num decl_type line fr = Inr fr' \<and>
           errors_var fr' = errors_var fr \<and> brace_depth_var fr' = brace_depth_var fr \<and>
           default_factory (global_declarations_var fr') = Some [] \<and>
           entries (global_declarations_var fr') =
             record_all (entries (global_declarations_var fr))
               (map (\<lambda>var_name. (var_name, (line_num, decl_type, strip line))) names)"
  using assms
proof (induction ms arbitrary: names fr)
  case Nil
  then show ?case by simp
next
  case (Cons m ms)
  from Cons.prems(1) obtain name names' where names: "names = name # names'"
    and m: "match_group m 1 = Inr name" and rest: "map (\<lambda>m. match_group m 1) ms = map Inr names'"
    by (cases names) (auto simp del: One_nat_def)
  let ?dd = "global_declarations_var fr"
  let ?occ = "(line_num, decl_type, strip line)"
  obtain dd where dd: "getitem ?dd name = Inr dd" "default_factory dd = Some []"
    "dict_append (entries dd) name ?occ = dict_append (entries ?dd) name ?occ"
    using Cons.prems(2) by (cases "name \<in> fst ` set (entries ?dd)")
      (auto simp: getitem_def dict_append_fresh)
  let ?fr = "fr\<lparr>global_declarations_var := dd\<lparr>entries := dict_append (entries dd) name ?occ\<rparr>\<rparr>"
  have "default_factory (global_declarations_var ?fr) = Some []" using dd(2) by simp
  from Cons.IH [OF rest this, of ] obtain fr' where
    fr': "matches_loop ms line_num decl_type line ?fr = Inr fr'"
    "errors_var fr' = errors_var ?fr" "brace_depth_var fr' = brace_depth_var ?fr"
    "default_factory (global_declarations_var fr') = Some []"
    "entries (global_declarations_var fr') =
       record_all (entries (global_declarations_var ?fr))
         (map (\<lambda>var_name. (var_name, ?occ)) names')"
    by blast
  show ?case
    using fr' by (simp add: m dd names del: One_nat_def)
qed

lemma patterns_loop_eq:
  assumes "default_factory (global_declarations_var fr) = Some []"
  shows "\<exists>fr'. patterns_loop ps line_num line fr = Some (Inr fr') \<and>
           errors_var fr' = errors_var fr \<and> brace_depth_var fr' = brace_depth_var fr \<and>
           default_factory (global_declarations_var fr') = Some [] \<and>
           entries (global_declarations_var fr') =
             record_all (entries (global_declarations_var fr))
               (concat (map (\<lambda>(kw, decl_type).
                    map (\<lambda>var_name. (var_name, (line_num, decl_type, strip line)))
                      (finditer kw None line)) ps))"
  using assms
proof (induction ps arbitrary: fr)
  case Nil
  then show ?case by simp
next
  case (Cons p ps)
  obtain kw decl_type where p: "p = (kw, decl_type)" by (cases p)
  from finditer_run_eq [of kw None line] obtain ms where
    ms: "finditer_run kw None line = Some ms"
    "map (\<lambda>m. match_group m 1) ms = map Inr (finditer kw None line)" by blast
  from matches_loop_eq [OF ms(2) Cons.prems, of line_num decl_type line] obtain fr1 where
    fr1: "matches_loop ms line_num decl_type line fr = Inr fr1"
    "errors_var fr1 = errors_var fr" "brace_depth_var fr1 = brace_depth_var fr"
    "default_factory (global_declarations_var fr1) = Some []"
    "entries (global_declarations_var fr1) =
       record_all (entries (global_declarations_var fr))
         (map (\<lambda>var_name. (var_name, (line_num, decl_type, strip line))) (finditer kw None line))"
    by blast
  from Cons.IH [OF fr1(4)] obtain fr' where
    fr': "patterns_loop ps line_num line fr1 = Some (Inr fr')"
    "errors_var fr' = errors_var fr1" "brace_depth_var fr' = brace_depth_var fr1"
    "default_factory (global_declarations_var fr') = Some []"
    "entries (global_declarations_var fr') =
       record_all (entries (global_declarations_var fr1))
         (concat (map (\<lambda>(kw, decl_type).
              map (\<lambda>var_name. (var_name, (line_num, decl_type, strip line)))
                (finditer kw None line)) ps))"
    by blast
  show ?case
    using fr' fr1 by (simp add: p ms(1) record_all_append)
qed

lemma lines_loop_eq:
  assumes "default_factory (global_declarations_var fr) = Some []"
  shows "\<exists>fr'. lines_loop ls line_num fr = Some (Inr fr') \<and>
           errors_var fr' = errors_var fr \<and>
           entries (global_declarations_var fr') =
             scan_lines ls line_num (brace_depth_var fr) (entries (global_declarations_var fr))"
  using assms
proof (induction ls arbitrary: line_num fr)
  case Nil
  then show ?case by simp
next
  case (Cons line rest)
  let ?fr1 = "fr\<lparr>brace_depth_var :=
                 brace_depth_var fr +
                 (int (str_count line CHR ''{'') - int (str_count line CHR ''}''))\<rparr>"
  have f1: "default_factory (global_declarations_var ?fr1) = Some []" using Cons.prems by simp
  show ?case
  proof (cases "brace_depth_var ?fr1 - int (str_count line CHR ''{'') + int (str_count line CHR ''}'') \<le> 0")
    case True
    from patterns_loop_eq [OF f1, of patterns line_num line] obtain fr2 where
      fr2: "patterns_loop patterns line_num line ?fr1 = Some (Inr fr2)"
      "errors_var fr2 = errors_var ?fr1" "brace_depth_var fr2 = brace_depth_var ?fr1"
      "default_factory (global_declarations_var fr2) = Some []"
      "entries (global_declarations_var fr2) =
         record_all (entries (global_declarations_var ?fr1)) (line_matches line_num line)"
      unfolding line_matches_def by blast
    from Cons.IH [OF fr2(4), of "line_num + 1"] obtain fr' where
      "lines_loop rest (line_num + 1) fr2 = Some (Inr fr')" "errors_var fr' = errors_var fr2"
      "entries (global_declarations_var fr') =
         scan_lines rest (line_num + 1) (brace_depth_var fr2) (entries (global_declarations_var fr2))"
      by blast
    with True fr2 show ?thesis by (simp add: Let_def)
  next
    case False
    from Cons.IH [OF f1, of "line_num + 1"] obtain fr' where
      "lines_loop rest (line_num + 1) ?fr1 = Some (Inr fr')" "errors_var fr' = errors_var ?fr1"
      "entries (global_declarations_var fr') =
         scan_lines rest (line_num + 1) (brace_depth_var ?fr1) (entries (global_declarations_var ?fr1))"
      by blast
    with False show ?thesis by (simp add: Let_def)
  qed
qed

lemma report_loop_eq:
  "errors_var (report_loop d fr) = errors_var fr @ duplicates d"
  by (induction d fr rule: report_loop.induct) auto

lemma check_duplicate_declarations_run_eq:
  "\<exists>fr'. check_duplicate_declarations_run fr js_code =
           Some (Inr (check_duplicate_declarations js_code, fr'))"
proof -
  let ?fr3 = "fr\<lparr>errors_var := [],
                 global_declarations_var := \<lparr>default_factory = Some [], entries = []\<rparr>,
                 brace_depth_var := 0\<rparr>"
  have "default_factory (global_declarations_var ?fr3) = Some []" by simp
  from lines_loop_eq [OF this, of "split_lines js_code" 1] obtain fr4 where
    "lines_loop (split_lines js_code) 1 ?fr3 = Some (Inr fr4)" "errors_var fr4 = []"
    "entries (global_declarations_var fr4) = global_declarations js_code"
    by (auto simp: global_declarations_def)
  then show ?thesis
    by (simp add: check_duplicate_declarations_run_def Let_def report_loop_eq
        check_duplicate_declarations_def)
qed

lemma check_syntax_errors_run_eq:
  "\<exists>sf'. check_syntax_errors_run sf js_code = Some (Inr (check_syntax_errors js_code, sf'))"
  by (simp add: check_syntax_errors_run_def check_syntax_errors_def Let_def)


section \<open>The claims\<close>

text \<open>
  Claim C1 (as amended). On the text of scenario A the checker reports one duplicate
  declaration of \<open>a\<close> with three occurrences, on lines 1, 2 and 3: the declaration of line
  2 stands on the line that opens the block, the depth before that line is 0, and so it is
  recorded as top-level.
\<close>

theorem scenario_a_three_occurrences:
  "check_duplicate_declarations scenario_a =
     [\<lparr>etype = ''duplicate_declaration'',
       variable = Some ''a'',
       occurrences = Some [(1, ''let'', ''let a = 1;''),
                           (2, ''let'', ''function f(){ let a = 2; }''),
                           (3, ''let'', ''let a = 3;'')],
       message = ''Variable '' @ [quote] @ ''a'' @ [quote] @
                 '' is declared 3 times in global scope''\<rparr>]"
  by (rule scenario_a_eval)

text \<open>
  Claim C1 as the specification states it, two occurrences on lines 1 and 3 with line 2
  left out, does not hold of the code: the lines of the occurrences are 1, 2 and 3.
\<close>

theorem scenario_a_counterexample:
  "map (map_option (map fst) \<circ> occurrences) (check_duplicate_declarations scenario_a)
     = [Some [1, 2, 3]] \<and>
   map (map_option (map fst) \<circ> occurrences) (check_duplicate_declarations scenario_a)
     \<noteq> [Some [1, 3]]"
  by (simp add: scenario_a_eval)

text \<open>
  Claim C2. For every text, the index the scope tracker builds holds exactly the pattern
  matches of the lines whose depth before the line is at most 0, the depth before line
  \<open>i\<close> being the count of opening braces minus that of closing braces over the lines
  \<open>1 .. i - 1\<close>: the loop adds the line's own braces to its running depth and subtracts
  them again to classify the line. An occurrence is in the index if and only if it is a
  match on such a line.
\<close>

theorem scope_tracker_top_level:
  "global_declarations js_code = record_all [] (top_level_matches (split_lines js_code)) \<and>
   ((v, occ) \<in> recorded (global_declarations js_code) \<longleftrightarrow>
      (\<exists>i. 1 \<le> i \<and> i \<le> length (split_lines js_code) \<and>
           depth_before (split_lines js_code) i \<le> 0 \<and>
           (v, occ) \<in> set (line_matches i (split_lines js_code ! (i - 1)))))"
  by (simp add: global_declarations_eq recorded_record_all recorded_empty set_top_level_matches)

text \<open>
  Claim C3. For every text and each of the three delimiter kinds, the balance checker
  reports an error of that kind if and only if the net count of the pair, openers minus
  closers over the whole text, is not 0; the error is then the only one of its kind, its
  message carries the absolute value of the net count and the word \<open>opening\<close> when the
  net count is positive, \<open>closing\<close> when it is negative. The checker reports nothing else,
  and the decimal rendering in the message determines the magnitude.
\<close>

theorem balance_checker_net:
  "of_type ''unmatched_braces'' (check_syntax_errors js_code) =
     (if net js_code CHR ''{'' CHR ''}'' = 0 then []
      else [\<lparr>etype = ''unmatched_braces'', variable = None, occurrences = None,
             message = ''Unmatched braces: '' @
                       str_nat (nat \<bar>net js_code CHR ''{'' CHR ''}''\<bar>) @ '' '' @
                       (if net js_code CHR ''{'' CHR ''}'' > 0 then ''opening'' else ''closing'') @
                       '' braces''\<rparr>]) \<and>
   of_type ''unmatched_parentheses'' (check_syntax_errors js_code) =
     (if net js_code CHR ''('' CHR '')'' = 0 then []
      else [\<lparr>etype = ''unmatched_parentheses'', variable = None, occurrences = None,
             message = ''Unmatched parentheses: '' @
                       str_nat (nat \<bar>net js_code CHR ''('' CHR '')''\<bar>) @ '' '' @
                       (if net js_code CHR ''('' CHR '')'' > 0 then ''opening'' else ''closing'') @
                       '' parentheses''\<rparr>]) \<and>
   of_type ''unmatched_brackets'' (check_syntax_errors js_code) =
     (if net js_code CHR ''['' CHR '']'' = 0 then []
      else [\<lparr>etype = ''unmatched_brackets'', variable = None, occurrences = None,
             message = ''Unmatched brackets: '' @
                       str_nat (nat \<bar>net js_code CHR ''['' CHR '']''\<bar>) @ '' '' @
                       (if net js_code CHR ''['' CHR '']'' > 0 then ''opening'' else ''closing'') @
                       '' brackets''\<rparr>]) \<and>
   check_syntax_errors js_code =
     of_type ''unmatched_braces'' (check_syntax_errors js_code) @
     of_type ''unmatched_parentheses'' (check_syntax_errors js_code) @
     of_type ''unmatched_brackets'' (check_syntax_errors js_code) \<and>
   (str_nat m = str_nat n \<longleftrightarrow> m = n)"
  using of_type_braces [of js_code] of_type_parentheses [of js_code]
    of_type_brackets [of js_code] syntax_errors_split [of js_code] str_nat_eq_iff [of m n]
  by (intro conjI)

text \<open>
  Claim C4. The errors of the blocks of a document are merged block by block, and within
  a block the duplicate declarations come first and the unbalanced delimiters after them.
  The duplicate declarations stand in the order of the first line on which their
  identifiers were recorded (each carries its occurrences in line order, so that line is
  the one of its first occurrence), and the unbalanced delimiters in the fixed order
  braces, parentheses, brackets.
\<close>

theorem merged_order:
  "collect_errors scripts 1 [] =
     concat (map (\<lambda>(i, script). block_errors i script) (enumerate 1 scripts)) \<and>
   block_errors i script =
     map (Pair i) (check_duplicate_declarations script) @
     map (Pair i) (check_syntax_errors script) \<and>
   list_all (\<lambda>e. etype e = ''duplicate_declaration'') (check_duplicate_declarations script) \<and>
   list_all in_line_order (check_duplicate_declarations script) \<and>
   sorted (map first_line (check_duplicate_declarations script)) \<and>
   subseq (map etype (check_syntax_errors script))
     [''unmatched_braces'', ''unmatched_parentheses'', ''unmatched_brackets'']"
proof (intro conjI)
  show "collect_errors scripts 1 [] =
     concat (map (\<lambda>(i, script). block_errors i script) (enumerate 1 scripts))"
    by (simp add: collect_errors_eq)
  show "block_errors i script =
     map (Pair i) (check_duplicate_declarations script) @
     map (Pair i) (check_syntax_errors script)"
    by (simp add: block_errors_def)
  show "list_all (\<lambda>e. etype e = ''duplicate_declaration'') (check_duplicate_declarations script)"
    by (simp add: list_all_iff check_duplicate_declarations_def duplicates_types)
  show "list_all in_line_order (check_duplicate_declarations script)"
    by (rule check_in_line_order)
  show "sorted (map first_line (check_duplicate_declarations script))"
    by (rule sorted_first_lines)
  show "subseq (map etype (check_syntax_errors script))
     [''unmatched_braces'', ''unmatched_parentheses'', ''unmatched_brackets'']"
    by (rule syntax_error_types)
qed

text \<open>
  Claim C5 (as amended). The checker counts as a declaration of an identifier a match of
  one of the three patterns that captures it: the keyword at a word boundary, whitespace,
  and the maximal run of word characters after it. For every text in which exactly two
  such matches on lines whose depth before is at most 0 capture the same name, whichever
  keywords matched, the checker reports exactly one duplicate declaration for that name,
  carrying those two occurrences in line order; for every text in which exactly one such
  match captures a name, and none on any other line, the checker reports none for it.
\<close>

theorem duplicate_twice_once:
  "(length (top_level_decls js_code v) = 2 \<longrightarrow>
      (\<exists>o1 o2. top_level_decls js_code v = [o1, o2] \<and> fst o1 \<le> fst o2 \<and>
               for_variable v (check_duplicate_declarations js_code) =
                 [duplicate_error v [o1, o2]])) \<and>
   (length (top_level_decls js_code v) = 1 \<and> nested_decls js_code v = [] \<longrightarrow>
      for_variable v (check_duplicate_declarations js_code) = [])"
proof (intro conjI impI)
  assume len: "length (top_level_decls js_code v) = 2"
  then obtain o1 o2 where eq: "top_level_decls js_code v = [o1, o2]"
    by (cases "top_level_decls js_code v"; cases "tl (top_level_decls js_code v)") auto
  have "sorted (map fst (top_level_decls js_code v))" by (rule sorted_top_level_decls)
  with eq have "fst o1 \<le> fst o2" by simp
  moreover have "for_variable v (check_duplicate_declarations js_code) =
      [duplicate_error v [o1, o2]]"
    by (simp add: for_variable_check eq)
  ultimately show "\<exists>o1 o2. top_level_decls js_code v = [o1, o2] \<and> fst o1 \<le> fst o2 \<and>
      for_variable v (check_duplicate_declarations js_code) = [duplicate_error v [o1, o2]]"
    using eq by blast
next
  assume "length (top_level_decls js_code v) = 1 \<and> nested_decls js_code v = []"
  then show "for_variable v (check_duplicate_declarations js_code) = []"
    by (simp add: for_variable_check)
qed

theorem duplicate_twice_once_witness:
  "length (top_level_decls two_decls ''a'') = 2 \<and>
   for_variable ''a'' (check_duplicate_declarations two_decls) =
     [duplicate_error ''a'' [(1, ''let'', ''let a;''), (2, ''var'', ''var a;'')]] \<and>
   length (top_level_decls ''const b'' ''b'') = 1 \<and>
   nested_decls ''const b'' ''b'' = [] \<and>
   for_variable ''b'' (check_duplicate_declarations ''const b'') = []"
  using duplicate_twice_once [of two_decls "''a''"] duplicate_twice_once [of "''const b''" "''b''"]
  by (simp add: two_decls_eval one_decl_eval)

text \<open>
  Claim C5 as the specification states it, of the identifiers a text declares, does not
  hold of the code. The text \<^verbatim>\<open>let $ = 1;\<close>, \<^verbatim>\<open>let $ = 2;\<close> declares \<open>$\<close> twice,
  on two lines of depth 0, and no duplicate declaration is reported for \<open>$\<close>. The text
  \<^verbatim>\<open>let a;\<close>, \<^verbatim>\<open>let a$b;\<close> declares \<open>a\<close> once and \<open>a$b\<close> once, on two lines of
  depth 0, and a duplicate declaration of \<open>a\<close> on lines 1 and 2 is reported.
\<close>

theorem declared_identifier_counterexample:
  "split_lines dollar_twice = [''let $ = 1;'', ''let $ = 2;''] \<and>
   map (depth_before (split_lines dollar_twice)) [1, 2] = [0, 0] \<and>
   for_variable ''$'' (check_duplicate_declarations dollar_twice) = [] \<and>
   split_lines declared_once = [''let a;'', ''let a$b;''] \<and>
   map (depth_before (split_lines declared_once)) [1, 2] = [0, 0] \<and>
   map (map_option (map fst) \<circ> occurrences)
     (for_variable ''a'' (check_duplicate_declarations declared_once)) = [Some [1, 2]]"
  using counterexample_lines_eval declared_once_eval dollar_twice_none
  by blast

text \<open>
  Claim C6. On every text, and from whatever values its variables hold on entry, the run
  of each checker ends and returns a list of errors without raising: the scan for matches
  ends, every match has the group 1 that is asked of it, and the dictionary has a factory
  for the keys it lacks. The list returned is the one the checker computes; it is a list
  of well-formed errors (a duplicate declaration has its variable and at least two
  occurrences, the balance checker returns at most three errors of the three known
  types), and on the empty text it is empty.
\<close>

theorem checkers_total:
  "(\<exists>fr'. check_duplicate_declarations_run fr js_code =
            Some (Inr (check_duplicate_declarations js_code, fr'))) \<and>
   (\<exists>sf'. check_syntax_errors_run sf js_code =
            Some (Inr (check_syntax_errors js_code, sf'))) \<and>
   list_all is_duplicate_defect (check_duplicate_declarations js_code) \<and>
   list_all is_unbalanced_defect (check_syntax_errors js_code) \<and>
   length (check_syntax_errors js_code) \<le> 3 \<and>
   check_duplicate_declarations [] = [] \<and>
   check_syntax_errors [] = []"
  using check_duplicate_declarations_run_eq [of fr js_code]
    check_syntax_errors_run_eq [of sf js_code]
    duplicates_shape [of "global_declarations js_code"] syntax_shape [of js_code]
    syntax_length [of js_code] empty_text_clean
  by (simp add: check_duplicate_declarations_def)

text \<open>
  Claim C7. A second run of a checker on the same text returns the list the first run
  returned, although the second run starts from the values the first run left in the
  checker's variables (its list of errors, its dictionary, its depth or its counts):
  every variable is assigned before it is read, so nothing is carried from one invocation
  to the next. The same holds from any values on entry.
\<close>

theorem rerun_identical:
  "(\<exists>errs fr1 fr2.
      check_duplicate_declarations_run fr js_code = Some (Inr (errs, fr1)) \<and>
      check_duplicate_declarations_run fr1 js_code = Some (Inr (errs, fr2)) \<and>
      errs = check_duplicate_declarations js_code) \<and>
   (\<exists>errs sf1 sf2.
      check_syntax_errors_run sf js_code = Some (Inr (errs, sf1)) \<and>
      check_syntax_errors_run sf1 js_code = Some (Inr (errs, sf2)) \<and>
      errs = check_syntax_errors js_code)"
proof
  from check_duplicate_declarations_run_eq [of fr js_code] obtain fr1 where
    r1: "check_duplicate_declarations_run fr js_code =
           Some (Inr (check_duplicate_declarations js_code, fr1))" by blast
  from check_duplicate_declarations_run_eq [of fr1 js_code] obtain fr2 where
    "check_duplicate_declarations_run fr1 js_code =
       Some (Inr (check_duplicate_declarations js_code, fr2))" by blast
  with r1 show "\<exists>errs fr1 fr2.
      check_duplicate_declarations_run fr js_code = Some (Inr (errs, fr1)) \<and>
      check_duplicate_declarations_run fr1 js_code = Some (Inr (errs, fr2)) \<and>
      errs = check_duplicate_declarations js_code" by blast
next
  from check_syntax_errors_run_eq [of sf js_code] obtain sf1 where
    r1: "check_syntax_errors_run sf js_code = Some (Inr (check_syntax_errors js_code, sf1))"
    by blast
  from check_syntax_errors_run_eq [of sf1 js_code] obtain sf2 where
    "check_syntax_errors_run sf1 js_code = Some (Inr (check_syntax_errors js_code, sf2))"
    by blast
  with r1 show "\<exists>errs sf1 sf2.
      check_syntax_errors_run sf js_code = Some (Inr (errs, sf1)) \<and>
      check_syntax_errors_run sf1 js_code = Some (Inr (errs, sf2)) \<and>
      errs = check_syntax_errors js_code" by blast
qed

text \<open>
  Claim C8 (as amended). When the templates directory exists and every HTML file in it
  can be opened and decoded, the exit status is 0 if every block of every document is
  without errors and 1 otherwise. When the directory is missing, or a file cannot be
  read, the exit status is 1 whatever the blocks yield.
\<close>

theorem main_exit_status:
  "main (Some html_files) =
     (if list_all readable html_files \<and> run_clean (contents html_files) then 0 else 1) \<and>
   main (Some (map Readable html_texts)) = (if run_clean html_texts then 0 else 1) \<and>
   main None = 1"
proof (intro conjI)
  show "main (Some html_files) =
     (if list_all readable html_files \<and> run_clean (contents html_files) then 0 else 1)"
    by (rule main_exit)
  have "list_all readable (map Readable html_texts)"
    by (simp add: list_all_iff readable_simps)
  moreover have "contents (map Readable html_texts) = html_texts"
    by (induction html_texts) (simp_all add: contents_simps)
  ultimately show "main (Some (map Readable html_texts)) = (if run_clean html_texts then 0 else 1)"
    using main_exit [of "map Readable html_texts"] by simp
  show "main None = 1" by (simp add: main_def)
qed

text \<open>
  Claim C8 as the specification states it does not hold of the code. A run whose only
  HTML file cannot be decoded has no block with an error and exits with status 1; so does
  a run whose templates directory is missing.
\<close>

theorem main_unreadable_counterexample:
  "run_clean (documents (Some [Unreadable UnicodeDecodeError])) \<and>
   main (Some [Unreadable UnicodeDecodeError]) \<noteq> 0 \<and>
   run_clean (documents None) \<and>
   main None \<noteq> 0"
  by (simp add: run_clean_def documents_def contents_simps main_def validate_html_path_def
      read_file_def)

text \<open>
  Claim C9. A document from which no script block is extracted reports no error and is
  valid, and the exit status of a run is the same with and without that document.
\<close>

theorem no_blocks_noop:
  assumes "extract_javascript_from_html html = []"
  shows "validate_html_file html = ([], True) \<and>
         validate_html_path (Readable html) = Inr ([], True) \<and>
         main (Some (xs @ Readable html # ys)) = main (Some (xs @ ys))"
proof (intro conjI)
  show v: "validate_html_file html = ([], True)"
    using assms by (simp add: validate_html_file_def)
  then show "validate_html_path (Readable html) = Inr ([], True)"
    by (simp add: validate_html_path_def read_file_def)
  have "list_all readable (xs @ Readable html # ys) = list_all readable (xs @ ys)"
    by (simp add: readable_simps)
  moreover have "run_clean (contents (xs @ Readable html # ys)) = run_clean (contents (xs @ ys))"
    using run_clean_skip [OF assms, of "contents xs" "contents ys"]
    by (simp add: contents_append contents_simps)
  ultimately show "main (Some (xs @ Readable html # ys)) = main (Some (xs @ ys))"
    by (simp add: main_exit)
qed

theorem no_blocks_noop_witness:
  "extract_javascript_from_html ''<p>hi</p>'' = [] \<and>
   validate_html_file ''<p>hi</p>'' = ([], True) \<and>
   main (Some [Readable ''<p>hi</p>'']) = 0"
proof -
  have "main (Some []) = 0" by (simp add: main_def)
  then show ?thesis
    using no_blocks_noop [OF no_script_eval, of "[]" "[]"] no_script_eval by simp
qed

text \<open>
  Claim C10. A pattern matches at a word boundary the keyword, a non-empty run of
  whitespace and a non-empty maximal run of word characters, which is the captured name.
  An identifier that is empty or begins with a character that is no word character is
  therefore never a key of the index and never reported; the text that declares \<open>$\<close>
  twice at top level yields no error.
\<close>

theorem nonword_name_not_recorded:
  "(match_here kw prev rest = Some (name, rest') \<longleftrightarrow>
      word_boundary prev rest \<and>
      (\<exists>ws. rest = kw @ ws @ name @ rest' \<and> ws \<noteq> [] \<and> list_all is_space ws \<and>
            name \<noteq> [] \<and> list_all is_word name \<and> (rest' = [] \<or> \<not> is_word (hd rest')))) \<and>
   (v = [] \<or> \<not> is_word (hd v) \<longrightarrow>
      v \<notin> fst ` set (global_declarations js_code) \<and>
      for_variable v (check_duplicate_declarations js_code) = []) \<and>
   check_duplicate_declarations dollar_twice = []"
proof (intro conjI impI)
  show "match_here kw prev rest = Some (name, rest') \<longleftrightarrow>
      word_boundary prev rest \<and>
      (\<exists>ws. rest = kw @ ws @ name @ rest' \<and> ws \<noteq> [] \<and> list_all is_space ws \<and>
            name \<noteq> [] \<and> list_all is_word name \<and> (rest' = [] \<or> \<not> is_word (hd rest')))"
    by (rule match_here_iff)
  show "check_duplicate_declarations dollar_twice = []" by (rule dollar_twice_eval)
next
  assume v: "v = [] \<or> \<not> is_word (hd v)"
  then show "v \<notin> fst ` set (global_declarations js_code)"
    using keys_global [of v js_code] by blast
  from v have "top_level_decls js_code v = []" by (rule no_decls_no_defect)
  then show "for_variable v (check_duplicate_declarations js_code) = []"
    by (simp add: for_variable_check)
qed

theorem nonword_name_not_recorded_witness:
  "\<not> is_word (hd ''$'') \<and>
   ''$'' \<notin> fst ` set (global_declarations dollar_twice) \<and>
   for_variable ''$'' (check_duplicate_declarations dollar_twice) = []"
proof -
  have "\<not> is_word (hd ''$'')" by (simp add: is_word_def)
  then show ?thesis
    using nonword_name_not_recorded [of _ _ _ _ _ "''$''" dollar_twice] by blast
qed

end
